theory Spec2Isabelle
  imports Complex_Main
begin

section \<open>Python values used by the circuit breaker\<close>

subsection \<open>Exceptions and \<^verbatim>\<open>isinstance\<close>\<close>

text \<open>
  An exception object is its class's method resolution order (the names of the class and
  of all its base classes, the class itself first) and its arguments.
  \<^verbatim>\<open>isinstance(exception, cls)\<close> holds when \<^verbatim>\<open>cls\<close> is in that order.
\<close>

datatype py_exception =
  PyException (exc_mro: "string list") (exc_args: string)

definition isinstance :: "py_exception \<Rightarrow> string \<Rightarrow> bool" where
  "isinstance exception cls = (cls \<in> set (exc_mro exception))"

text \<open>
  What a call can raise: the breaker's own \<^verbatim>\<open>CallNotAllowedException\<close> with its message,
  the interpreter's \<^verbatim>\<open>ZeroDivisionError\<close> and \<^verbatim>\<open>OverflowError\<close> from \<^verbatim>\<open>/\<close>, or an
  exception object that the guarded function raised, passed on as it is.
\<close>

datatype raised =
    CallNotAllowedException string
  | ZeroDivisionError
  | OverflowError
  | Propagated py_exception

subsection \<open>Floats and true division\<close>

text \<open>
  \<^verbatim>\<open>failures / self.__sliding_window_size > self.__trip_threshold\<close> divides two Python
  ints with \<^verbatim>\<open>/\<close> and compares the resulting float with a float. A float is an IEEE
  binary64 value: a finite one is kept as the rational it denotes (the sign of zero is
  dropped, no comparison sees it), the others are the two infinities and NaN.
\<close>

datatype pyfloat = Finite rat | PosInf | NegInf | NaN

text \<open>\<^verbatim>\<open>x > y\<close> on floats: false as soon as one side is NaN.\<close>

fun py_gt :: "pyfloat \<Rightarrow> pyfloat \<Rightarrow> bool" where
  "py_gt NaN y = False"
| "py_gt x NaN = False"
| "py_gt (Finite a) (Finite b) = (b < a)"
| "py_gt PosInf PosInf = False"
| "py_gt PosInf y = True"
| "py_gt x PosInf = False"
| "py_gt NegInf y = False"
| "py_gt x NegInf = True"

text \<open>\<^verbatim>\<open>int.bit_length()\<close>: the number of binary digits of a natural number.\<close>

fun bit_length :: "nat \<Rightarrow> nat" where
  "bit_length n = (if n = 0 then 0 else Suc (bit_length (n div 2)))"

declare bit_length.simps [simp del]

definition pow2 :: "int \<Rightarrow> rat" where
  "pow2 i = (if 0 \<le> i then 2 ^ nat i else 1 / 2 ^ nat (- i))"

text \<open>The exponent \<open>e\<close> with \<open>pow2 e \<le> a < pow2 (e + 1)\<close>, for a positive rational \<open>a\<close>.\<close>

definition ilog2 :: "rat \<Rightarrow> int" where
  "ilog2 a = (if 1 \<le> a then int (bit_length (nat \<lfloor>a\<rfloor>)) - 1
              else - int (bit_length (nat \<lceil>1 / a\<rceil> - 1)))"

definition round_half_even :: "rat \<Rightarrow> int" where
  "round_half_even m =
     (let f = \<lfloor>m\<rfloor>; d = m - of_int f
      in if d < 1 / 2 then f
         else if 1 / 2 < d then f + 1
         else if even f then f else f + 1)"

text \<open>
  Rounding a rational to the nearest binary64 value, ties to even: 53 significant bits,
  and below \<open>pow2 (- 1022)\<close> the fixed spacing \<open>pow2 (- 1074)\<close> of the subnormal numbers.
\<close>

definition binary64 :: "rat \<Rightarrow> rat" where
  "binary64 q =
     (if q = 0 then 0
      else let a = \<bar>q\<bar>;
               p = max (ilog2 a) (- 1022) - 52;
               r = round_half_even (a / pow2 p)
           in sgn q * of_int r * pow2 p)"

text \<open>
  \<^verbatim>\<open>a / b\<close> on ints: \<^verbatim>\<open>ZeroDivisionError\<close> when \<^verbatim>\<open>b == 0\<close>, otherwise the correctly
  rounded quotient, or \<^verbatim>\<open>OverflowError\<close> when that is beyond the largest float.
\<close>

definition py_truediv :: "int \<Rightarrow> int \<Rightarrow> raised + pyfloat" where
  "py_truediv a b =
     (if b = 0 then Inl ZeroDivisionError
      else let q = binary64 (of_int a / of_int b)
           in if pow2 1024 \<le> \<bar>q\<bar> then Inl OverflowError else Inr (Finite q))"

subsection \<open>The clock\<close>

text \<open>
  \<^verbatim>\<open>datetime.now()\<close> is read from a clock: \<open>clk n\<close> is what the \<open>n\<close>-th call returns, in
  microseconds (the resolution of \<^verbatim>\<open>datetime\<close> and \<^verbatim>\<open>timedelta\<close>). Nothing is assumed of
  the readings, the wall clock may stand still or be set back. The number of calls made
  so far is threaded with the breaker.
\<close>

type_synonym clock = "nat \<Rightarrow> int"

section \<open>\<^verbatim>\<open>resilience/utils.py\<close>\<close>

text \<open>
  Modelled from the spec: \<^verbatim>\<open>RingBuffer\<close> of \<^verbatim>\<open>resilience/utils.py\<close>, a file that is not
  among the sources (its test \<^verbatim>\<open>tests/test_utils.py\<close> is). The specification reads:
  an ordered, fixed-capacity sequence of up to N outcomes; when full, inserting a new
  outcome evicts the oldest; \<^verbatim>\<open>clear\<close> removes all entries; iteration is in insertion
  order, oldest first; with N = 0 \<^verbatim>\<open>append\<close> is a no-op. A capacity is a natural number:
  nothing says what a negative one would do.
\<close>

record 'a RingBuffer =
  rb_size :: nat
  rb_items :: "'a list"

definition RingBuffer_init :: "nat \<Rightarrow> 'a RingBuffer" where
  "RingBuffer_init capacity = \<lparr>rb_size = capacity, rb_items = []\<rparr>"

definition rb_add :: "'a \<Rightarrow> 'a RingBuffer \<Rightarrow> 'a RingBuffer" where
  "rb_add x b =
     (let ys = rb_items b @ [x]
      in b\<lparr>rb_items := drop (length ys - rb_size b) ys\<rparr>)"

definition rb_clear :: "'a RingBuffer \<Rightarrow> 'a RingBuffer" where
  "rb_clear b = b\<lparr>rb_items := []\<rparr>"

text \<open>
  Modelled from the spec: \<^verbatim>\<open>Counter\<close> of \<^verbatim>\<open>resilience/utils.py\<close>, also missing. The
  specification reads: \<^verbatim>\<open>increment()\<close> adds 1, \<^verbatim>\<open>value\<close> reads and sets the count. It is
  the Python int it holds.
\<close>

type_synonym Counter = int

definition increment :: "Counter \<Rightarrow> Counter" where
  "increment c = c + 1"

section \<open>\<^verbatim>\<open>resilience/circuit_breaker.py\<close>\<close>

datatype CircuitBreakerState = CLOSED | OPEN | HALF_OPEN

datatype Result = SUCCESS | FAILURE

text \<open>
  The attributes of a \<^verbatim>\<open>CircuitBreaker\<close>. \<open>state\<close> is the private \<^verbatim>\<open>__state\<close> behind the
  \<^verbatim>\<open>state\<close> property; \<open>trip_duration\<close> is a \<^verbatim>\<open>timedelta\<close> and \<open>state_transitioned_at\<close> a
  \<^verbatim>\<open>datetime\<close>, both in microseconds; \<open>allowed_exceptions\<close> lists class names;
  \<open>sliding_window_size\<close> is the capacity handed to \<^verbatim>\<open>RingBuffer\<close>. The lock is left out:
  every method holds it for its whole body, so that callers take turns, one read,
  assignment or report at a time.
\<close>

record CircuitBreaker =
  name :: string
  sliding_window_size :: nat
  trip_threshold :: pyfloat
  trip_duration :: int
  allowed_calls_in_half_open :: int
  allowed_exceptions :: "string list"
  executions :: "Result RingBuffer"
  calls_since_half_open :: Counter
  state :: CircuitBreakerState
  state_transitioned_at :: int

text \<open>A breaker together with the number of clock readings taken so far.\<close>

type_synonym world = "CircuitBreaker \<times> nat"

text \<open>The setter of the \<^verbatim>\<open>state\<close> property.\<close>

definition set_state :: "clock \<Rightarrow> CircuitBreakerState \<Rightarrow> world \<Rightarrow> world" where
  "set_state clk current_state w =
     (let (cb, k) = w;
          cb1 = cb\<lparr>state := current_state, state_transitioned_at := clk k\<rparr>;
          cb2 = (if current_state = HALF_OPEN
                 then cb1\<lparr>calls_since_half_open := 0\<rparr> else cb1);
          cb3 = (if current_state = CLOSED
                 then cb2\<lparr>calls_since_half_open := 0,
                          executions := rb_clear (executions cb2)\<rparr>
                 else cb2)
      in (cb3, Suc k))"

text \<open>The getter of the \<^verbatim>\<open>state\<close> property: the state it returns, and the world after it.\<close>

definition get_state :: "clock \<Rightarrow> world \<Rightarrow> CircuitBreakerState \<times> world" where
  "get_state clk w =
     (let (cb, k) = w
      in if state cb = OPEN
         then (if trip_duration cb < clk k - state_transitioned_at cb
               then (let w' = set_state clk HALF_OPEN (cb, Suc k) in (state (fst w'), w'))
               else (state cb, (cb, Suc k)))
         else (state cb, w))"

text \<open>
  \<^verbatim>\<open>__init__\<close>: the attributes, then \<^verbatim>\<open>self.state = CircuitBreakerState.CLOSED\<close> through the
  setter. \<^verbatim>\<open>__state\<close> and \<^verbatim>\<open>__state_transitioned_at\<close> do not exist before the setter
  assigns them; the record holds \<open>CLOSED\<close> and \<open>0\<close> there until it does.
\<close>

definition CircuitBreaker_init ::
  "clock \<Rightarrow> string \<Rightarrow> nat \<Rightarrow> pyfloat \<Rightarrow> int \<Rightarrow> int \<Rightarrow> string list \<Rightarrow> nat \<Rightarrow> world" where
  "CircuitBreaker_init clk nm window_size threshold duration allowed_calls allowed k =
     set_state clk CLOSED
       (\<lparr>name = nm,
         sliding_window_size = window_size,
         trip_threshold = threshold,
         trip_duration = duration,
         allowed_calls_in_half_open = allowed_calls,
         allowed_exceptions = allowed,
         executions = RingBuffer_init window_size,
         calls_since_half_open = 0,
         state = CLOSED,
         state_transitioned_at = 0\<rparr>, k)"

text \<open>\<^verbatim>\<open>__handle_call_success\<close>.\<close>

definition handle_call_success :: "clock \<Rightarrow> world \<Rightarrow> world" where
  "handle_call_success clk w =
     (let (s1, w1) = get_state clk w;
          w3 = (if s1 = CLOSED
                then (fst w1\<lparr>executions := rb_add SUCCESS (executions (fst w1))\<rparr>, snd w1)
                else (let (s2, w2) = get_state clk w1
                      in if s2 = HALF_OPEN
                         then (fst w2\<lparr>calls_since_half_open :=
                                         increment (calls_since_half_open (fst w2))\<rparr>, snd w2)
                         else w2))
      in if allowed_calls_in_half_open (fst w3) < calls_since_half_open (fst w3)
         then set_state clk CLOSED w3
         else w3)"

text \<open>
  \<^verbatim>\<open>__handle_call_failure\<close>: what it raises, if anything, and the world it leaves.
\<close>

definition ignore :: "CircuitBreaker \<Rightarrow> py_exception \<Rightarrow> bool" where
  "ignore cb exception = list_ex (isinstance exception) (allowed_exceptions cb)"

definition failures_in :: "Result RingBuffer \<Rightarrow> int" where
  "failures_in b = sum_list (map (\<lambda>result. 1) (filter (\<lambda>result. result = FAILURE) (rb_items b)))"

definition handle_call_failure ::
  "clock \<Rightarrow> py_exception \<Rightarrow> world \<Rightarrow> raised option \<times> world" where
  "handle_call_failure clk exception w =
     (if ignore (fst w) exception then (None, handle_call_success clk w)
      else
        (let (s1, w1) = get_state clk w
         in if s1 = HALF_OPEN then (None, set_state clk OPEN w1)
            else
              (let (s2, w2) = get_state clk w1
               in if s2 = CLOSED
                  then
                    (let cb = fst w2\<lparr>executions := rb_add FAILURE (executions (fst w2))\<rparr>;
                         failures = failures_in (executions cb)
                     in case py_truediv failures (int (sliding_window_size cb)) of
                          Inl err \<Rightarrow> (Some err, (cb, snd w2))
                        | Inr ratio \<Rightarrow>
                            if py_gt ratio (trip_threshold cb)
                            then (None, set_state clk OPEN (cb, snd w2))
                            else (None, (cb, snd w2)))
                  else (None, w2))))"

text \<open>
  \<^verbatim>\<open>wrapped_func\<close>, the function \<^verbatim>\<open>__call__\<close> returns. The guarded function \<open>func\<close> acts on
  an environment \<open>'e\<close> of its own and returns a value or raises; calling it is the only
  way the environment changes. It is taken to return, and not to reach the breaker itself.
\<close>

definition wrapped_func ::
  "clock \<Rightarrow> ('e \<Rightarrow> (py_exception + 'v) \<times> 'e) \<Rightarrow> 'e \<Rightarrow> world \<Rightarrow> (raised + 'v) \<times> 'e \<times> world" where
  "wrapped_func clk func env w =
     (let (s, w1) = get_state clk w
      in if s = OPEN
         then (Inl (CallNotAllowedException ''Circuit breaker is open''), env, w1)
         else
           (case func env of
              (Inr v, env') \<Rightarrow> (Inr v, env', handle_call_success clk w1)
            | (Inl exception, env') \<Rightarrow>
                (case handle_call_failure clk exception w1 of
                   (Some err, w2) \<Rightarrow> (Inl err, env', w2)
                 | (None, w2) \<Rightarrow> (Inl (Propagated exception), env', w2))))"

section \<open>Runs of the breaker\<close>

text \<open>
  What a caller reports after a guarded call: \<^verbatim>\<open>__handle_call_success()\<close>, or
  \<^verbatim>\<open>__handle_call_failure(exception)\<close>. An error raised while handling a report does not
  undo what was done before it, so the run goes on from the world the report left.
\<close>

datatype report = Success | Failure py_exception

fun handle_report :: "clock \<Rightarrow> report \<Rightarrow> world \<Rightarrow> world" where
  "handle_report clk Success w = handle_call_success clk w"
| "handle_report clk (Failure exception) w = snd (handle_call_failure clk exception w)"

fun handle_reports :: "clock \<Rightarrow> report list \<Rightarrow> world \<Rightarrow> world" where
  "handle_reports clk [] w = w"
| "handle_reports clk (r # rs) w = handle_reports clk rs (handle_report clk r w)"

text \<open>A report that is not a counted failure: a success, or an ignored exception.\<close>

fun non_failing :: "CircuitBreaker \<Rightarrow> report \<Rightarrow> bool" where
  "non_failing cb Success = True"
| "non_failing cb (Failure exception) = ignore cb exception"

text \<open>
  One thing that can happen to a breaker: its state is read or assigned, a report is
  handled, or somebody else reads the clock. A call of \<open>wrapped_func\<close> is a read followed
  by a report.
\<close>

inductive step :: "clock \<Rightarrow> world \<Rightarrow> world \<Rightarrow> bool" for clk :: clock where
  read: "step clk w (snd (get_state clk w))"
| assign: "step clk w (set_state clk s w)"
| success: "step clk w (handle_call_success clk w)"
| failure: "step clk w (snd (handle_call_failure clk exception w))"
| tick: "step clk (cb, k) (cb, Suc k)"

text \<open>The worlds a breaker can be in: constructed by \<^verbatim>\<open>__init__\<close>, then any steps.\<close>

inductive reachable :: "clock \<Rightarrow> world \<Rightarrow> bool" for clk :: clock where
  init: "reachable clk (CircuitBreaker_init clk nm window_size threshold duration
                          allowed_calls allowed k)"
| step: "reachable clk w \<Longrightarrow> step clk w w' \<Longrightarrow> reachable clk w'"

text \<open>
  What holds of a breaker throughout its life: the ring buffer has the configured size
  and holds no more entries than that, and the probe counter is not negative and, when
  the number of allowed calls is not negative either, not above it.
\<close>

definition consistent :: "CircuitBreaker \<Rightarrow> bool" where
  "consistent cb \<longleftrightarrow>
     rb_size (executions cb) = sliding_window_size cb \<and>
     length (rb_items (executions cb)) \<le> rb_size (executions cb) \<and>
     0 \<le> calls_since_half_open cb \<and>
     (0 \<le> allowed_calls_in_half_open cb \<longrightarrow>
        calls_since_half_open cb \<le> allowed_calls_in_half_open cb)"

subsection \<open>Example inputs\<close>

text \<open>
  A breaker with the default threshold 0.5, trip duration 5 seconds and two allowed calls
  in half-open, which ignores \<^verbatim>\<open>KeyError\<close>; two exceptions; a clock that advances by one
  second at each reading.
\<close>

definition example_breaker ::
  "nat \<Rightarrow> CircuitBreakerState \<Rightarrow> Result list \<Rightarrow> int \<Rightarrow> int \<Rightarrow> CircuitBreaker" where
  "example_breaker n s results calls transitioned_at =
     \<lparr>name = ''example'',
      sliding_window_size = n,
      trip_threshold = Finite (1 / 2),
      trip_duration = 5000000,
      allowed_calls_in_half_open = 2,
      allowed_exceptions = [''KeyError''],
      executions = \<lparr>rb_size = n, rb_items = results\<rparr>,
      calls_since_half_open = calls,
      state = s,
      state_transitioned_at = transitioned_at\<rparr>"

definition value_error :: py_exception where
  "value_error = PyException [''ValueError'', ''Exception'', ''BaseException'', ''object''] ''boom''"

definition key_error :: py_exception where
  "key_error =
     PyException [''KeyError'', ''LookupError'', ''Exception'', ''BaseException'', ''object'']
       ''missing''"

definition seconds_clock :: clock where
  "seconds_clock n = 1000000 * int n"

section \<open>Reading and assigning the state\<close>

lemma get_state_not_open:
  "state cb \<noteq> OPEN \<Longrightarrow> get_state clk (cb, k) = (state cb, (cb, k))"
  by (simp add: get_state_def)

lemma get_state_open_early:
  "state cb = OPEN \<Longrightarrow> clk k - state_transitioned_at cb \<le> trip_duration cb \<Longrightarrow>
   get_state clk (cb, k) = (OPEN, (cb, Suc k))"
  by (simp add: get_state_def)

lemma get_state_open_late:
  "state cb = OPEN \<Longrightarrow> trip_duration cb < clk k - state_transitioned_at cb \<Longrightarrow>
   get_state clk (cb, k) =
     (HALF_OPEN,
      (cb\<lparr>state := HALF_OPEN, state_transitioned_at := clk (Suc k),
          calls_since_half_open := 0\<rparr>, Suc (Suc k)))"
  by (simp add: get_state_def set_state_def)

lemma set_state_OPEN:
  "set_state clk OPEN (cb, k) = (cb\<lparr>state := OPEN, state_transitioned_at := clk k\<rparr>, Suc k)"
  by (simp add: set_state_def)

lemma set_state_CLOSED:
  "set_state clk CLOSED (cb, k) =
     (cb\<lparr>state := CLOSED, state_transitioned_at := clk k, calls_since_half_open := 0,
         executions := rb_clear (executions cb)\<rparr>, Suc k)"
  by (simp add: set_state_def)

lemma set_state_HALF_OPEN:
  "set_state clk HALF_OPEN (cb, k) =
     (cb\<lparr>state := HALF_OPEN, state_transitioned_at := clk k, calls_since_half_open := 0\<rparr>,
      Suc k)"
  by (simp add: set_state_def)

lemmas example_defs =
  example_breaker_def value_error_def key_error_def seconds_clock_def ignore_def isinstance_def

section \<open>Tripping while closed\<close>

text \<open>
  C1. While CLOSED, a counted failure is appended to the window, and the breaker then
  goes to OPEN exactly when the number of FAILURE entries in the window, divided by the
  configured window size, is a float strictly greater than the threshold; otherwise it
  stays CLOSED. The divisor is \<open>sliding_window_size\<close>, not the number of entries. With a
  window size of 0 the division has no result and the breaker does not go to OPEN.
\<close>

theorem closed_counted_failure_trips_iff:
  assumes "state cb = CLOSED" and "\<not> ignore cb exception"
  shows "let window = rb_add FAILURE (executions cb);
             (err, cb', k') = handle_call_failure clk exception (cb, k)
         in executions cb' = window \<and>
            (state cb' = OPEN \<longleftrightarrow>
               (\<exists>ratio. py_truediv (failures_in window) (int (sliding_window_size cb)) = Inr ratio
                        \<and> py_gt ratio (trip_threshold cb))) \<and>
            (state cb' \<noteq> OPEN \<longrightarrow> state cb' = CLOSED)"
  using assms
  by (auto simp: handle_call_failure_def get_state_not_open set_state_OPEN Let_def
           split: sum.splits)

lemma truediv_3_4: "py_truediv 3 4 = Inr (Finite (3 / 4))"
  by code_simp

lemma truediv_2_4: "py_truediv 2 4 = Inr (Finite (1 / 2))"
  by code_simp

theorem closed_counted_failure_trips_iff_witness:
  "state (example_breaker 4 CLOSED [FAILURE, FAILURE] 0 0) = CLOSED \<and>
   \<not> ignore (example_breaker 4 CLOSED [FAILURE, FAILURE] 0 0) value_error \<and>
   handle_call_failure seconds_clock value_error
     (example_breaker 4 CLOSED [FAILURE, FAILURE] 0 0, 1) =
     (None, (example_breaker 4 OPEN [FAILURE, FAILURE, FAILURE] 0 1000000, 2)) \<and>
   state (example_breaker 4 CLOSED [FAILURE] 0 0) = CLOSED \<and>
   handle_call_failure seconds_clock value_error
     (example_breaker 4 CLOSED [FAILURE] 0 0, 1) =
     (None, (example_breaker 4 CLOSED [FAILURE, FAILURE] 0 0, 1))"
  using closed_counted_failure_trips_iff
          [of "example_breaker 4 CLOSED [FAILURE, FAILURE] 0 0" value_error seconds_clock 1]
        closed_counted_failure_trips_iff
          [of "example_breaker 4 CLOSED [FAILURE] 0 0" value_error seconds_clock 1]
  by (simp add: example_defs rb_add_def failures_in_def truediv_3_4 truediv_2_4
        handle_call_failure_def get_state_not_open set_state_OPEN)

section \<open>Failing while half-open\<close>

text \<open>
  C3. While HALF_OPEN, one reported failure whose exception is not ignored takes the
  breaker to OPEN at once, whatever the probe counter holds: nothing but the state and the
  time of the transition changes, and nothing is raised.
\<close>

theorem half_open_counted_failure_opens:
  assumes "state cb = HALF_OPEN" and "\<not> ignore cb exception"
  shows "handle_call_failure clk exception (cb, k) =
           (None, (cb\<lparr>state := OPEN, state_transitioned_at := clk k\<rparr>, Suc k))"
  using assms
  by (simp add: handle_call_failure_def get_state_not_open set_state_OPEN)

theorem half_open_counted_failure_opens_witness:
  "state (example_breaker 4 HALF_OPEN [] 2 0) = HALF_OPEN \<and>
   \<not> ignore (example_breaker 4 HALF_OPEN [] 2 0) value_error \<and>
   handle_call_failure seconds_clock value_error (example_breaker 4 HALF_OPEN [] 2 0, 7) =
     (None, (example_breaker 4 OPEN [] 2 7000000, 8))"
  using half_open_counted_failure_opens
          [of "example_breaker 4 HALF_OPEN [] 2 0" value_error seconds_clock 7]
  by (simp add: example_defs)

section \<open>From open to half-open\<close>

text \<open>
  C4, as the specification states it, fails when exactly the trip duration has elapsed:
  the getter compares with \<^verbatim>\<open>>\<close>. Five seconds after the transition, with a trip duration
  of five seconds, the state read is still OPEN.
\<close>

theorem state_read_at_trip_duration_counterexample:
  "state (example_breaker 4 OPEN [] 0 0) = OPEN \<and>
   trip_duration (example_breaker 4 OPEN [] 0 0)
     \<le> seconds_clock 5 - state_transitioned_at (example_breaker 4 OPEN [] 0 0) \<and>
   get_state seconds_clock (example_breaker 4 OPEN [] 0 0, 5) =
     (OPEN, (example_breaker 4 OPEN [] 0 0, 6))"
  by (simp add: example_defs get_state_def)

text \<open>
  C4, amended. A read of the state while the breaker is OPEN takes it to HALF_OPEN before
  answering when more than the trip duration has elapsed since the transition, and the
  probe counter is 0 then; a read when at most the trip duration has elapsed answers OPEN
  and leaves the breaker as it is.
\<close>

theorem state_read_while_open:
  assumes "state cb = OPEN"
  shows "(trip_duration cb < clk k - state_transitioned_at cb \<longrightarrow>
            (let (s, cb', k') = get_state clk (cb, k)
             in s = HALF_OPEN \<and> state cb' = HALF_OPEN \<and> calls_since_half_open cb' = 0)) \<and>
         (clk k - state_transitioned_at cb \<le> trip_duration cb \<longrightarrow>
            get_state clk (cb, k) = (OPEN, (cb, Suc k)))"
  using assms
  by (simp add: get_state_open_early get_state_open_late)

theorem state_read_while_open_witness:
  "state (example_breaker 4 OPEN [] 2 0) = OPEN \<and>
   trip_duration (example_breaker 4 OPEN [] 2 0)
     < seconds_clock 6 - state_transitioned_at (example_breaker 4 OPEN [] 2 0) \<and>
   get_state seconds_clock (example_breaker 4 OPEN [] 2 0, 6) =
     (HALF_OPEN, (example_breaker 4 HALF_OPEN [] 0 7000000, 8)) \<and>
   seconds_clock 3 - state_transitioned_at (example_breaker 4 OPEN [] 2 0)
     \<le> trip_duration (example_breaker 4 OPEN [] 2 0) \<and>
   get_state seconds_clock (example_breaker 4 OPEN [] 2 0, 3) =
     (OPEN, (example_breaker 4 OPEN [] 2 0, 4))"
  using state_read_while_open [of "example_breaker 4 OPEN [] 2 0" seconds_clock 6]
        state_read_while_open [of "example_breaker 4 OPEN [] 2 0" seconds_clock 3]
  by (simp add: example_defs get_state_def set_state_def)

section \<open>A window of size 0\<close>

text \<open>
  C5. With a window size of 0 the ratio \<^verbatim>\<open>failures / self.__sliding_window_size\<close> is a
  division by zero, and nothing guards it: a counted failure reported to a CLOSED breaker
  constructed with \<^verbatim>\<open>sliding_window_size=0\<close> raises \<^verbatim>\<open>ZeroDivisionError\<close>. The breaker is
  left CLOSED.
\<close>

theorem zero_window_counted_failure_raises:
  "handle_call_failure seconds_clock value_error
     (CircuitBreaker_init seconds_clock ''example'' 0 (Finite (1 / 2)) 5000000 2 [] 0) =
   (Some ZeroDivisionError,
    (\<lparr>name = ''example'', sliding_window_size = 0, trip_threshold = Finite (1 / 2),
      trip_duration = 5000000, allowed_calls_in_half_open = 2, allowed_exceptions = [],
      executions = \<lparr>rb_size = 0, rb_items = []\<rparr>, calls_since_half_open = 0,
      state = CLOSED, state_transitioned_at = 0\<rparr>, 1))"
  by (simp add: CircuitBreaker_init_def set_state_CLOSED rb_clear_def RingBuffer_init_def
        handle_call_failure_def ignore_def get_state_not_open py_truediv_def rb_add_def
        seconds_clock_def)

section \<open>Handling a success\<close>

lemma handle_call_success_closed:
  "state cb = CLOSED \<Longrightarrow>
   handle_call_success clk (cb, k) =
     (let cb1 = cb\<lparr>executions := rb_add SUCCESS (executions cb)\<rparr>
      in if allowed_calls_in_half_open cb < calls_since_half_open cb
         then set_state clk CLOSED (cb1, k) else (cb1, k))"
  by (simp add: handle_call_success_def get_state_not_open Let_def)

lemma handle_call_success_half_open:
  "state cb = HALF_OPEN \<Longrightarrow>
   handle_call_success clk (cb, k) =
     (let cb1 = cb\<lparr>calls_since_half_open := calls_since_half_open cb + 1\<rparr>
      in if allowed_calls_in_half_open cb < calls_since_half_open cb + 1
         then set_state clk CLOSED (cb1, k) else (cb1, k))"
  by (simp add: handle_call_success_def get_state_not_open increment_def Let_def)

lemma get_state_from_open:
  "state cb = OPEN \<Longrightarrow> get_state clk (cb, k) = (s, (cb', k')) \<Longrightarrow>
   (s = OPEN \<and> cb' = cb \<and> k' = Suc k) \<or>
   (s = HALF_OPEN \<and> k' = Suc (Suc k) \<and>
    cb' = cb\<lparr>state := HALF_OPEN, state_transitioned_at := clk (Suc k),
              calls_since_half_open := 0\<rparr>)"
  by (cases "clk k - state_transitioned_at cb \<le> trip_duration cb")
     (auto simp: get_state_open_early get_state_open_late)

lemma get_state_result:
  "get_state clk (cb, k) = (s, (cb', k')) \<Longrightarrow>
   s = state cb' \<and> executions cb' = executions cb \<and>
   (state cb' = state cb \<or> (state cb = OPEN \<and> state cb' = HALF_OPEN))"
  by (auto simp: get_state_def set_state_def Let_def split: if_splits)

lemma handle_call_success_enters_closed:
  assumes "state cb \<noteq> CLOSED" and "handle_call_success clk (cb, k) = (cb', k')"
    and "state cb' = CLOSED"
  shows "rb_items (executions cb') = [] \<and> calls_since_half_open cb' = 0"
proof -
  obtain s1 cb1 k1 where g1: "get_state clk (cb, k) = (s1, (cb1, k1))"
    by (metis prod.exhaust)
  obtain s2 cb2 k2 where g2: "get_state clk (cb1, k1) = (s2, (cb2, k2))"
    by (metis prod.exhaust)
  from get_state_result [OF g1] assms(1) have s1: "s1 = state cb1" "state cb1 \<noteq> CLOSED"
    by auto
  from get_state_result [OF g2] s1 have s2: "s2 = state cb2" "state cb2 \<noteq> CLOSED"
    by auto
  show ?thesis
    using assms(2,3) g1 g2 s1 s2
    by (auto simp: handle_call_success_def set_state_CLOSED rb_clear_def Let_def
             split: if_splits)
qed

lemma handle_call_failure_ignored:
  "ignore cb exception \<Longrightarrow>
   handle_call_failure clk exception (cb, k) = (None, handle_call_success clk (cb, k))"
  by (simp add: handle_call_failure_def)

lemma handle_call_failure_counted_not_closed:
  assumes "\<not> ignore cb exception" and "state cb \<noteq> CLOSED"
    and "handle_call_failure clk exception (cb, k) = (err, (cb', k'))"
  shows "state cb' \<noteq> CLOSED"
proof -
  obtain s1 cb1 k1 where g1: "get_state clk (cb, k) = (s1, (cb1, k1))"
    by (metis prod.exhaust)
  obtain s2 cb2 k2 where g2: "get_state clk (cb1, k1) = (s2, (cb2, k2))"
    by (metis prod.exhaust)
  from get_state_result [OF g1] assms(2) have s1: "s1 = state cb1" "state cb1 \<noteq> CLOSED"
    by auto
  from get_state_result [OF g2] s1 have s2: "s2 = state cb2" "state cb2 \<noteq> CLOSED"
    by auto
  show ?thesis
    using assms(1,3) g1 g2 s1 s2
    by (auto simp: handle_call_failure_def set_state_OPEN split: if_splits)
qed

section \<open>Entering CLOSED\<close>

lemma step_enters_closed:
  assumes st: "step clk (cb, k) (cb1, k1)" and ne: "state cb \<noteq> CLOSED"
    and cl: "state cb1 = CLOSED"
  shows "rb_items (executions cb1) = [] \<and> calls_since_half_open cb1 = 0"
  using st
proof cases
  case read
  obtain s where "get_state clk (cb, k) = (s, (cb1, k1))"
    using read by (metis prod.collapse)
  from get_state_result [OF this] ne cl show ?thesis
    by auto
next
  case (assign s)
  with cl show ?thesis
    by (cases s) (auto simp: set_state_def rb_clear_def)
next
  case success
  from handle_call_success_enters_closed [OF ne success [symmetric] cl] show ?thesis .
next
  case (failure exception)
  show ?thesis
  proof (cases "ignore cb exception")
    case True
    with failure have "handle_call_success clk (cb, k) = (cb1, k1)"
      by (simp add: handle_call_failure_ignored)
    from handle_call_success_enters_closed [OF ne this cl] show ?thesis .
  next
    case False
    obtain err where "handle_call_failure clk exception (cb, k) = (err, (cb1, k1))"
      using failure by (metis prod.collapse)
    from handle_call_failure_counted_not_closed [OF False ne this] cl show ?thesis
      by simp
  qed
next
  case tick
  with ne cl show ?thesis
    by simp
qed

lemma wrapped_func_enters_closed:
  assumes w: "wrapped_func clk func env (cb, k) = (r, env', (cb2, k2))"
    and ne: "state cb \<noteq> CLOSED" and cl: "state cb2 = CLOSED"
  shows "rb_items (executions cb2) = [] \<and> calls_since_half_open cb2 = 0"
proof -
  obtain s cb1 k1 where g: "get_state clk (cb, k) = (s, (cb1, k1))"
    by (metis prod.exhaust)
  from get_state_result [OF g] ne have s: "s = state cb1" "state cb1 \<noteq> CLOSED"
    by auto
  obtain res env1 where f: "func env = (res, env1)"
    by (metis prod.exhaust)
  show ?thesis
  proof (cases "s = OPEN")
    case True
    with w g s cl show ?thesis
      by (simp add: wrapped_func_def)
  next
    case False
    show ?thesis
    proof (cases res)
      case (Inr v)
      with w g f False have "handle_call_success clk (cb1, k1) = (cb2, k2)"
        by (simp add: wrapped_func_def)
      from handle_call_success_enters_closed [OF s(2) this cl] show ?thesis .
    next
      case (Inl exception)
      obtain err where h: "handle_call_failure clk exception (cb1, k1) = (err, (cb2, k2))"
        using w g f False Inl
        by (auto simp: wrapped_func_def split: prod.splits option.splits)
      show ?thesis
      proof (cases "ignore cb1 exception")
        case True
        with h have "handle_call_success clk (cb1, k1) = (cb2, k2)"
          by (simp add: handle_call_failure_ignored)
        from handle_call_success_enters_closed [OF s(2) this cl] show ?thesis .
      next
        case False
        from handle_call_failure_counted_not_closed [OF False s(2) h] cl show ?thesis
          by simp
      qed
    qed
  qed
qed

text \<open>
  C6. Every transition into CLOSED clears the sliding window and resets the probe counter
  to 0. The state is only ever assigned by the setter, and the setter called with CLOSED
  leaves, from any prior state, an empty window and a counter of zero; accordingly every
  step of a breaker that takes it from another state into CLOSED, and every guarded call
  that does, ends with an empty window and a counter of zero.
\<close>

theorem entering_closed_clears:
  "(let (cb', k') = set_state clk CLOSED (cb, k)
    in state cb' = CLOSED \<and> rb_items (executions cb') = [] \<and> calls_since_half_open cb' = 0) \<and>
   (step clk (cb, k) (cb1, k1) \<and> state cb \<noteq> CLOSED \<and> state cb1 = CLOSED \<longrightarrow>
      rb_items (executions cb1) = [] \<and> calls_since_half_open cb1 = 0) \<and>
   (wrapped_func clk func env (cb, k) = (r, env', (cb2, k2)) \<and> state cb \<noteq> CLOSED \<and>
    state cb2 = CLOSED \<longrightarrow>
      rb_items (executions cb2) = [] \<and> calls_since_half_open cb2 = 0)"
proof -
  have "let (cb', k') = set_state clk CLOSED (cb, k)
        in state cb' = CLOSED \<and> rb_items (executions cb') = [] \<and>
           calls_since_half_open cb' = 0"
    by (simp add: set_state_CLOSED rb_clear_def)
  moreover
  have "step clk (cb, k) (cb1, k1) \<and> state cb \<noteq> CLOSED \<and> state cb1 = CLOSED \<longrightarrow>
          rb_items (executions cb1) = [] \<and> calls_since_half_open cb1 = 0"
    using step_enters_closed [of clk cb k cb1 k1] by simp
  moreover
  have "wrapped_func clk func env (cb, k) = (r, env', (cb2, k2)) \<and> state cb \<noteq> CLOSED \<and>
        state cb2 = CLOSED \<longrightarrow>
          rb_items (executions cb2) = [] \<and> calls_since_half_open cb2 = 0"
    using wrapped_func_enters_closed [of clk func env cb k r env' cb2 k2] by simp
  ultimately show ?thesis
    by (rule conjI [OF _ conjI])
qed

lemma step_success_half_open_example:
  "handle_call_success seconds_clock (example_breaker 4 HALF_OPEN [] 2 0, 3) =
     (example_breaker 4 CLOSED [] 0 3000000, 4)"
  by (simp add: example_defs handle_call_success_half_open set_state_CLOSED rb_clear_def)

lemma call_half_open_example:
  "wrapped_func seconds_clock (\<lambda>env :: unit. (Inr (), env)) ()
     (example_breaker 4 HALF_OPEN [] 2 0, 3) =
   (Inr (), (), (example_breaker 4 CLOSED [] 0 3000000, 4))"
proof -
  have "state (example_breaker 4 HALF_OPEN [] 2 0) = HALF_OPEN"
    by (simp add: example_breaker_def)
  then show ?thesis
    by (simp add: wrapped_func_def get_state_not_open step_success_half_open_example)
qed

theorem entering_closed_clears_witness:
  "step seconds_clock (example_breaker 4 HALF_OPEN [] 2 0, 3)
     (example_breaker 4 CLOSED [] 0 3000000, 4) \<and>
   wrapped_func seconds_clock (\<lambda>env :: unit. (Inr (), env)) ()
     (example_breaker 4 HALF_OPEN [] 2 0, 3) =
   (Inr (), (), (example_breaker 4 CLOSED [] 0 3000000, 4)) \<and>
   state (example_breaker 4 HALF_OPEN [] 2 0) \<noteq> CLOSED \<and>
   state (example_breaker 4 CLOSED [] 0 3000000) = CLOSED \<and>
   rb_items (executions (example_breaker 4 CLOSED [] 0 3000000)) = [] \<and>
   calls_since_half_open (example_breaker 4 CLOSED [] 0 3000000) = 0"
proof -
  have s: "step seconds_clock (example_breaker 4 HALF_OPEN [] 2 0, 3)
             (example_breaker 4 CLOSED [] 0 3000000, 4)"
    using step.success [of seconds_clock "(example_breaker 4 HALF_OPEN [] 2 0, 3)"]
    by (simp only: step_success_half_open_example)
  have n: "state (example_breaker 4 HALF_OPEN [] 2 0) \<noteq> CLOSED"
    and c: "state (example_breaker 4 CLOSED [] 0 3000000) = CLOSED"
    by (simp_all add: example_breaker_def)
  from s n c call_half_open_example
    entering_closed_clears [of seconds_clock "example_breaker 4 HALF_OPEN [] 2 0" 3
      "example_breaker 4 CLOSED [] 0 3000000" 4 "\<lambda>env :: unit. (Inr (), env)" "()"
      "Inr ()" "()" "example_breaker 4 CLOSED [] 0 3000000" 4]
  show ?thesis
    by simp
qed

section \<open>The configuration does not change\<close>

lemma set_state_config:
  "set_state clk s (cb, k) = (cb', k') \<Longrightarrow>
   sliding_window_size cb' = sliding_window_size cb \<and>
   allowed_calls_in_half_open cb' = allowed_calls_in_half_open cb \<and>
   rb_size (executions cb') = rb_size (executions cb)"
  by (auto simp: set_state_def rb_clear_def Let_def split: if_splits)

lemma get_state_config:
  "get_state clk (cb, k) = (s, (cb', k')) \<Longrightarrow>
   sliding_window_size cb' = sliding_window_size cb \<and>
   allowed_calls_in_half_open cb' = allowed_calls_in_half_open cb \<and>
   rb_size (executions cb') = rb_size (executions cb)"
  by (auto simp: get_state_def set_state_def Let_def split: if_splits)

lemma handle_call_success_config:
  assumes "handle_call_success clk (cb, k) = (cb', k')"
  shows "sliding_window_size cb' = sliding_window_size cb \<and>
         allowed_calls_in_half_open cb' = allowed_calls_in_half_open cb \<and>
         rb_size (executions cb') = rb_size (executions cb)"
proof -
  obtain s1 cb1 k1 where g1: "get_state clk (cb, k) = (s1, (cb1, k1))"
    by (metis prod.exhaust)
  obtain s2 cb2 k2 where g2: "get_state clk (cb1, k1) = (s2, (cb2, k2))"
    by (metis prod.exhaust)
  note c1 = get_state_config [OF g1] and c2 = get_state_config [OF g2]
  show ?thesis
    using assms g1 g2 c1 c2
    by (auto simp: handle_call_success_def set_state_CLOSED rb_clear_def rb_add_def Let_def
             split: if_splits)
qed

lemma handle_call_failure_config:
  assumes "handle_call_failure clk exception (cb, k) = (err, (cb', k'))"
  shows "sliding_window_size cb' = sliding_window_size cb \<and>
         allowed_calls_in_half_open cb' = allowed_calls_in_half_open cb \<and>
         rb_size (executions cb') = rb_size (executions cb)"
proof (cases "ignore cb exception")
  case True
  with assms have "handle_call_success clk (cb, k) = (cb', k')"
    by (simp add: handle_call_failure_ignored)
  then show ?thesis
    by (rule handle_call_success_config)
next
  case False
  obtain s1 cb1 k1 where g1: "get_state clk (cb, k) = (s1, (cb1, k1))"
    by (metis prod.exhaust)
  obtain s2 cb2 k2 where g2: "get_state clk (cb1, k1) = (s2, (cb2, k2))"
    by (metis prod.exhaust)
  note c1 = get_state_config [OF g1] and c2 = get_state_config [OF g2]
  show ?thesis
    using assms False g1 g2 c1 c2
    by (auto simp: handle_call_failure_def set_state_OPEN rb_add_def Let_def
             split: if_splits sum.splits)
qed

section \<open>Ignored exceptions\<close>

lemma failures_in_length:
  "failures_in b = int (length (filter (\<lambda>result. result = FAILURE) (rb_items b)))"
  unfolding failures_in_def by (induction "rb_items b" arbitrary: b) (simp_all add: sum_list_triv)

lemma filter_drop_length: "length (filter P (drop n xs)) \<le> length (filter P xs)"
proof -
  have "length (filter P xs) = length (filter P (take n xs)) + length (filter P (drop n xs))"
    by (metis append_take_drop_id filter_append length_append)
  then show ?thesis
    by simp
qed

lemma failures_in_add_SUCCESS: "failures_in (rb_add SUCCESS b) \<le> failures_in b"
proof -
  have "length (filter (\<lambda>result. result = FAILURE)
          (drop (length (rb_items b @ [SUCCESS]) - rb_size b) (rb_items b @ [SUCCESS])))
        \<le> length (filter (\<lambda>result. result = FAILURE) (rb_items b @ [SUCCESS]))"
    by (rule filter_drop_length)
  then show ?thesis
    by (simp add: failures_in_length rb_add_def)
qed

lemma failures_in_clear: "failures_in (rb_clear b) = 0"
  by (simp add: failures_in_length rb_clear_def)

lemma failures_in_nonneg: "0 \<le> failures_in b"
  by (simp add: failures_in_length)

lemma handle_call_success_window:
  assumes "handle_call_success clk (cb, k) = (cb', k')"
  shows "executions cb' = executions cb \<or>
         executions cb' = rb_add SUCCESS (executions cb) \<or>
         executions cb' = rb_clear (executions cb) \<or>
         executions cb' = rb_clear (rb_add SUCCESS (executions cb))"
proof -
  obtain s1 cb1 k1 where g1: "get_state clk (cb, k) = (s1, (cb1, k1))"
    by (metis prod.exhaust)
  obtain s2 cb2 k2 where g2: "get_state clk (cb1, k1) = (s2, (cb2, k2))"
    by (metis prod.exhaust)
  from get_state_result [OF g1] have e1: "executions cb1 = executions cb"
    by simp
  from get_state_result [OF g2] e1 have e2: "executions cb2 = executions cb"
    by simp
  show ?thesis
    using assms g1 g2 e1 e2
    by (auto simp: handle_call_success_def set_state_CLOSED Let_def split: if_splits)
qed

lemma handle_call_success_failures:
  assumes "handle_call_success clk (cb, k) = (cb', k')"
  shows "failures_in (executions cb') \<le> failures_in (executions cb)"
  using handle_call_success_window [OF assms]
    failures_in_add_SUCCESS [of "executions cb"] failures_in_nonneg [of "executions cb"]
  by (auto simp: failures_in_clear)

text \<open>
  C7. In every state, handling a failure whose exception is an instance of an ignored
  class is handling a success: nothing is raised and the breaker is left exactly as
  \<^verbatim>\<open>__handle_call_success\<close> leaves it. So it appends SUCCESS to the window while CLOSED,
  adds one to the probe counter while HALF_OPEN, and closes the circuit when the counter
  then exceeds the allowed calls; the number of FAILURE entries in the window, and with
  it the ratio, never goes up.
\<close>

theorem ignored_failure_is_success:
  assumes "ignore cb exception"
  shows "handle_call_failure clk exception (cb, k) = (None, handle_call_success clk (cb, k)) \<and>
         (let (err, cb', k') = handle_call_failure clk exception (cb, k)
          in failures_in (executions cb') \<le> failures_in (executions cb) \<and>
             sliding_window_size cb' = sliding_window_size cb \<and>
             (state cb = CLOSED \<and> calls_since_half_open cb \<le> allowed_calls_in_half_open cb \<longrightarrow>
                cb' = cb\<lparr>executions := rb_add SUCCESS (executions cb)\<rparr>) \<and>
             (state cb = HALF_OPEN \<and> calls_since_half_open cb < allowed_calls_in_half_open cb \<longrightarrow>
                cb' = cb\<lparr>calls_since_half_open := calls_since_half_open cb + 1\<rparr>) \<and>
             (state cb = HALF_OPEN \<and> allowed_calls_in_half_open cb \<le> calls_since_half_open cb \<longrightarrow>
                state cb' = CLOSED))"
proof -
  obtain cb' k' where h: "handle_call_success clk (cb, k) = (cb', k')"
    by (metis prod.exhaust)
  have f: "handle_call_failure clk exception (cb, k) = (None, (cb', k'))"
    using assms h by (simp add: handle_call_failure_ignored)
  have 1: "failures_in (executions cb') \<le> failures_in (executions cb)"
    by (rule handle_call_success_failures [OF h])
  have 2: "sliding_window_size cb' = sliding_window_size cb"
    using h handle_call_success_config by blast
  have 3: "state cb = CLOSED \<and> calls_since_half_open cb \<le> allowed_calls_in_half_open cb \<longrightarrow>
            cb' = cb\<lparr>executions := rb_add SUCCESS (executions cb)\<rparr>"
    using h by (auto simp: handle_call_success_closed)
  have 4: "state cb = HALF_OPEN \<and> calls_since_half_open cb < allowed_calls_in_half_open cb \<longrightarrow>
            cb' = cb\<lparr>calls_since_half_open := calls_since_half_open cb + 1\<rparr>"
    using h by (auto simp: handle_call_success_half_open)
  have 5: "state cb = HALF_OPEN \<and> allowed_calls_in_half_open cb \<le> calls_since_half_open cb \<longrightarrow>
            state cb' = CLOSED"
    using h by (auto simp: handle_call_success_half_open set_state_CLOSED)
  show ?thesis
    using f h 1 2 3 4 5 by simp
qed

theorem ignored_failure_is_success_witness:
  "ignore (example_breaker 4 CLOSED [FAILURE] 0 0) key_error \<and>
   handle_call_failure seconds_clock key_error (example_breaker 4 CLOSED [FAILURE] 0 0, 1) =
     (None, (example_breaker 4 CLOSED [FAILURE, SUCCESS] 0 0, 1)) \<and>
   handle_call_failure seconds_clock key_error (example_breaker 4 HALF_OPEN [] 1 0, 1) =
     (None, (example_breaker 4 HALF_OPEN [] 2 0, 1)) \<and>
   handle_call_failure seconds_clock key_error (example_breaker 4 HALF_OPEN [] 2 0, 1) =
     (None, (example_breaker 4 CLOSED [] 0 1000000, 2))"
  using ignored_failure_is_success
          [of "example_breaker 4 CLOSED [FAILURE] 0 0" key_error seconds_clock 1]
        ignored_failure_is_success
          [of "example_breaker 4 HALF_OPEN [] 1 0" key_error seconds_clock 1]
        ignored_failure_is_success
          [of "example_breaker 4 HALF_OPEN [] 2 0" key_error seconds_clock 1]
  by (simp add: example_defs handle_call_success_closed handle_call_success_half_open
        set_state_CLOSED rb_add_def rb_clear_def)

section \<open>Calls through the breaker\<close>

text \<open>
  C8. A call attempted while the state, read through the getter with its lazy time check,
  is OPEN raises \<^verbatim>\<open>CallNotAllowedException\<close>. The guarded function is not invoked: the
  result does not depend on it and its environment is returned untouched. The breaker,
  with its window and probe counter, is unchanged; one clock reading was taken.
\<close>

theorem open_call_not_permitted:
  assumes "fst (get_state clk (cb, k)) = OPEN"
  shows "wrapped_func clk func env (cb, k) =
           (Inl (CallNotAllowedException ''Circuit breaker is open''), env, (cb, Suc k))"
proof -
  from assms have "get_state clk (cb, k) = (OPEN, (cb, Suc k))"
    by (auto simp: get_state_def set_state_def Let_def split: if_splits)
  then show ?thesis
    by (simp add: wrapped_func_def)
qed

theorem open_call_not_permitted_witness:
  "fst (get_state seconds_clock (example_breaker 4 OPEN [FAILURE, FAILURE, FAILURE] 0 0, 3))
     = OPEN \<and>
   wrapped_func seconds_clock (\<lambda>env :: nat. (Inr (), Suc env)) 0
     (example_breaker 4 OPEN [FAILURE, FAILURE, FAILURE] 0 0, 3) =
   (Inl (CallNotAllowedException ''Circuit breaker is open''), 0,
    (example_breaker 4 OPEN [FAILURE, FAILURE, FAILURE] 0 0, 4))"
proof -
  have h: "fst (get_state seconds_clock
             (example_breaker 4 OPEN [FAILURE, FAILURE, FAILURE] 0 0, 3)) = OPEN"
    by (simp add: get_state_def example_defs)
  from h open_call_not_permitted [OF h, of "\<lambda>env :: nat. (Inr (), Suc env)" 0]
  show ?thesis
    by simp
qed

text \<open>
  C9. The wrapper does not always re-raise the exception of the guarded function. A
  breaker constructed with \<^verbatim>\<open>sliding_window_size=0\<close> is CLOSED and lets the call through;
  the guarded function raises \<^verbatim>\<open>ValueError\<close>; \<^verbatim>\<open>__handle_call_failure\<close> then divides by
  the window size inside the \<^verbatim>\<open>except\<close> block, and the caller gets \<^verbatim>\<open>ZeroDivisionError\<close>
  in place of the \<^verbatim>\<open>ValueError\<close>.
\<close>

theorem zero_window_call_raises_zero_division:
  "wrapped_func seconds_clock (\<lambda>env :: nat. (Inl value_error :: py_exception + unit, Suc env)) 0
     (CircuitBreaker_init seconds_clock ''example'' 0 (Finite (1 / 2)) 5000000 2 [] 0) =
   (Inl ZeroDivisionError, 1,
    (\<lparr>name = ''example'', sliding_window_size = 0, trip_threshold = Finite (1 / 2),
      trip_duration = 5000000, allowed_calls_in_half_open = 2, allowed_exceptions = [],
      executions = \<lparr>rb_size = 0, rb_items = []\<rparr>, calls_since_half_open = 0,
      state = CLOSED, state_transitioned_at = 0\<rparr>, 1))"
  by (simp add: wrapped_func_def CircuitBreaker_init_def set_state_CLOSED rb_clear_def
        RingBuffer_init_def handle_call_failure_def ignore_def get_state_not_open
        py_truediv_def rb_add_def seconds_clock_def)

section \<open>What holds of every reachable breaker\<close>

lemma set_state_consistent:
  "consistent cb \<Longrightarrow> set_state clk s (cb, k) = (cb', k') \<Longrightarrow> consistent cb'"
  by (cases s) (auto simp: set_state_def consistent_def rb_clear_def)

lemma get_state_consistent:
  "consistent cb \<Longrightarrow> get_state clk (cb, k) = (s, (cb', k')) \<Longrightarrow> consistent cb'"
  by (auto simp: get_state_def set_state_def consistent_def Let_def split: if_splits)

lemma rb_add_length:
  "length (rb_items b) \<le> rb_size b \<Longrightarrow> length (rb_items (rb_add x b)) \<le> rb_size (rb_add x b)"
  by (simp add: rb_add_def)

lemma handle_call_success_consistent:
  assumes "consistent cb" and "handle_call_success clk (cb, k) = (cb', k')"
  shows "consistent cb'"
proof -
  obtain s1 cb1 k1 where g1: "get_state clk (cb, k) = (s1, (cb1, k1))"
    by (metis prod.exhaust)
  obtain s2 cb2 k2 where g2: "get_state clk (cb1, k1) = (s2, (cb2, k2))"
    by (metis prod.exhaust)
  have c1: "consistent cb1"
    by (rule get_state_consistent [OF assms(1) g1])
  have c2: "consistent cb2"
    by (rule get_state_consistent [OF c1 g2])
  show ?thesis
    using assms(2) g1 g2 c1 c2
    by (auto simp: handle_call_success_def set_state_CLOSED consistent_def rb_clear_def
          rb_add_def increment_def Let_def split: if_splits)
qed

lemma handle_call_failure_consistent:
  assumes "consistent cb" and "handle_call_failure clk exception (cb, k) = (err, (cb', k'))"
  shows "consistent cb'"
proof (cases "ignore cb exception")
  case True
  with assms(2) have "handle_call_success clk (cb, k) = (cb', k')"
    by (simp add: handle_call_failure_ignored)
  then show ?thesis
    by (rule handle_call_success_consistent [OF assms(1)])
next
  case False
  obtain s1 cb1 k1 where g1: "get_state clk (cb, k) = (s1, (cb1, k1))"
    by (metis prod.exhaust)
  obtain s2 cb2 k2 where g2: "get_state clk (cb1, k1) = (s2, (cb2, k2))"
    by (metis prod.exhaust)
  have c1: "consistent cb1"
    by (rule get_state_consistent [OF assms(1) g1])
  have c2: "consistent cb2"
    by (rule get_state_consistent [OF c1 g2])
  show ?thesis
    using assms(2) False g1 g2 c1 c2
    by (auto simp: handle_call_failure_def set_state_OPEN consistent_def rb_add_def Let_def
             split: if_splits sum.splits)
qed

lemma step_consistent:
  assumes "step clk (cb, k) (cb', k')" and "consistent cb"
  shows "consistent cb'"
  using assms(1)
proof cases
  case read
  then show ?thesis
    by (metis get_state_consistent [OF assms(2)] prod.collapse)
next
  case (assign s)
  then show ?thesis
    by (metis set_state_consistent [OF assms(2)])
next
  case success
  then show ?thesis
    by (metis handle_call_success_consistent [OF assms(2)])
next
  case (failure exception)
  then show ?thesis
    by (metis handle_call_failure_consistent [OF assms(2)] prod.collapse)
next
  case tick
  with assms(2) show ?thesis
    by simp
qed

lemma reachable_consistent: "reachable clk w \<Longrightarrow> consistent (fst w)"
proof (induction rule: reachable.induct)
  case (init nm window_size threshold duration allowed_calls allowed k)
  show ?case
    by (simp add: CircuitBreaker_init_def set_state_CLOSED consistent_def rb_clear_def
          RingBuffer_init_def)
next
  case (step w w')
  then show ?case
    using step_consistent [of clk "fst w" "snd w" "fst w'" "snd w'"] by simp
qed

section \<open>Reports while open\<close>

lemma reachable_after_first_failure_example:
  "reachable seconds_clock (example_breaker 1 OPEN [FAILURE] 0 1000000, 2)"
proof -
  have i: "CircuitBreaker_init seconds_clock ''example'' 1 (Finite (1 / 2)) 5000000 2
             [''KeyError''] 0 = (example_breaker 1 CLOSED [] 0 0, 1)"
    by (simp add: CircuitBreaker_init_def set_state_CLOSED rb_clear_def RingBuffer_init_def
          example_defs)
  have q: "py_truediv 1 1 = Inr (Finite 1)"
    by code_simp
  have f: "snd (handle_call_failure seconds_clock value_error
                  (example_breaker 1 CLOSED [] 0 0, 1)) =
           (example_breaker 1 OPEN [FAILURE] 0 1000000, 2)"
    by (simp add: example_defs handle_call_failure_def get_state_not_open rb_add_def
          failures_in_def q set_state_OPEN)
  have "reachable seconds_clock (example_breaker 1 CLOSED [] 0 0, 1)"
    using reachable.init [of seconds_clock "''example''" 1 "Finite (1 / 2)" 5000000 2
            "[''KeyError'']" 0]
    by (simp only: i)
  from reachable.step [OF this step.failure [of seconds_clock _ value_error]]
  show ?thesis
    by (simp only: f)
qed

text \<open>
  C10. A breaker with a non-negative number of allowed calls in half-open is OPEN, and
  less than the trip duration has elapsed since the transition at both clock readings
  that handling a report takes. Then a reported success and a reported failure, ignored
  or not, leave the breaker as it was, state, window and probe counter included, and
  raise nothing.
\<close>

theorem report_while_open_is_noop:
  assumes "reachable clk (cb, k)" and "0 \<le> allowed_calls_in_half_open cb"
    and "state cb = OPEN"
    and "clk k - state_transitioned_at cb < trip_duration cb"
    and "clk (Suc k) - state_transitioned_at cb < trip_duration cb"
  shows "handle_call_success clk (cb, k) = (cb, Suc (Suc k)) \<and>
         handle_call_failure clk exception (cb, k) = (None, (cb, Suc (Suc k)))"
proof -
  have g1: "get_state clk (cb, k) = (OPEN, (cb, Suc k))"
    using assms(3,4) by (simp add: get_state_open_early)
  have g2: "get_state clk (cb, Suc k) = (OPEN, (cb, Suc (Suc k)))"
    using assms(3,5) by (simp add: get_state_open_early)
  have "consistent cb"
    using reachable_consistent [OF assms(1)] by simp
  with assms(2) have c: "\<not> allowed_calls_in_half_open cb < calls_since_half_open cb"
    by (simp add: consistent_def)
  have s: "handle_call_success clk (cb, k) = (cb, Suc (Suc k))"
    using g1 g2 c by (simp add: handle_call_success_def)
  have "handle_call_failure clk exception (cb, k) = (None, (cb, Suc (Suc k)))"
    using g1 g2 s by (simp add: handle_call_failure_def)
  with s show ?thesis
    by simp
qed

theorem report_while_open_is_noop_witness:
  "reachable seconds_clock (example_breaker 1 OPEN [FAILURE] 0 1000000, 2) \<and>
   0 \<le> allowed_calls_in_half_open (example_breaker 1 OPEN [FAILURE] 0 1000000) \<and>
   state (example_breaker 1 OPEN [FAILURE] 0 1000000) = OPEN \<and>
   seconds_clock 2 - state_transitioned_at (example_breaker 1 OPEN [FAILURE] 0 1000000)
     < trip_duration (example_breaker 1 OPEN [FAILURE] 0 1000000) \<and>
   seconds_clock (Suc 2) - state_transitioned_at (example_breaker 1 OPEN [FAILURE] 0 1000000)
     < trip_duration (example_breaker 1 OPEN [FAILURE] 0 1000000) \<and>
   handle_call_success seconds_clock (example_breaker 1 OPEN [FAILURE] 0 1000000, 2) =
     (example_breaker 1 OPEN [FAILURE] 0 1000000, 4) \<and>
   handle_call_failure seconds_clock value_error
     (example_breaker 1 OPEN [FAILURE] 0 1000000, 2) =
     (None, (example_breaker 1 OPEN [FAILURE] 0 1000000, 4))"
proof -
  have h: "0 \<le> allowed_calls_in_half_open (example_breaker 1 OPEN [FAILURE] 0 1000000)"
    "state (example_breaker 1 OPEN [FAILURE] 0 1000000) = OPEN"
    "seconds_clock 2 - state_transitioned_at (example_breaker 1 OPEN [FAILURE] 0 1000000)
       < trip_duration (example_breaker 1 OPEN [FAILURE] 0 1000000)"
    "seconds_clock (Suc 2) - state_transitioned_at (example_breaker 1 OPEN [FAILURE] 0 1000000)
       < trip_duration (example_breaker 1 OPEN [FAILURE] 0 1000000)"
    by (simp_all add: example_defs)
  from reachable_after_first_failure_example h
    report_while_open_is_noop [OF reachable_after_first_failure_example h, of value_error]
  show ?thesis
    by (simp add: numeral_2_eq_2 eval_nat_numeral)
qed

section \<open>Closing from half-open\<close>

lemma non_failing_calls:
  "non_failing (cb\<lparr>calls_since_half_open := c\<rparr>) r = non_failing cb r"
  by (cases r) (simp_all add: ignore_def)

lemma handle_report_half_open:
  assumes "state cb = HALF_OPEN" and "non_failing cb r"
  shows "handle_report clk r (cb, k) =
           (let cb1 = cb\<lparr>calls_since_half_open := calls_since_half_open cb + 1\<rparr>
            in if allowed_calls_in_half_open cb < calls_since_half_open cb + 1
               then set_state clk CLOSED (cb1, k) else (cb1, k))"
  using assms
  by (cases r) (simp_all add: handle_call_failure_ignored handle_call_success_half_open)

lemma handle_reports_half_open:
  assumes "state cb = HALF_OPEN" and "\<forall>r \<in> set rs. non_failing cb r"
    and "calls_since_half_open cb + int (length rs) \<le> allowed_calls_in_half_open cb"
  shows "handle_reports clk rs (cb, k) =
           (cb\<lparr>calls_since_half_open := calls_since_half_open cb + int (length rs)\<rparr>, k)"
  using assms
proof (induction rs arbitrary: cb)
  case Nil
  then show ?case
    by simp
next
  case (Cons r rs)
  let ?cb1 = "cb\<lparr>calls_since_half_open := calls_since_half_open cb + 1\<rparr>"
  have "handle_report clk r (cb, k) = (?cb1, k)"
    using Cons.prems by (simp add: handle_report_half_open)
  moreover have "handle_reports clk rs (?cb1, k) =
      (?cb1\<lparr>calls_since_half_open := calls_since_half_open ?cb1 + int (length rs)\<rparr>, k)"
    using Cons.prems by (intro Cons.IH) (simp_all add: non_failing_calls)
  ultimately show ?case
    by (simp add: add.assoc)
qed

lemma handle_reports_append:
  "handle_reports clk (rs @ rs') w = handle_reports clk rs' (handle_reports clk rs w)"
  by (induction rs arbitrary: w) simp_all

text \<open>
  C2. A breaker with a non-negative number Q of allowed calls has just entered HALF_OPEN,
  so its probe counter is 0, and is sent consecutive reports that are successes or ignored
  failures. After n of them with n at most Q it is still HALF_OPEN and the counter is n;
  after Q + 1 of them it is CLOSED. So the transition happens on report Q + 1, the one
  that makes the counter exceed Q, and not before.
\<close>

theorem half_open_closes_after_allowed_calls_plus_one:
  assumes "state cb = HALF_OPEN" and "calls_since_half_open cb = 0"
    and "0 \<le> allowed_calls_in_half_open cb"
    and "\<forall>r \<in> set rs. non_failing cb r"
  shows "(int (length rs) \<le> allowed_calls_in_half_open cb \<longrightarrow>
            state (fst (handle_reports clk rs (cb, k))) = HALF_OPEN \<and>
            calls_since_half_open (fst (handle_reports clk rs (cb, k))) = int (length rs)) \<and>
         (int (length rs) = allowed_calls_in_half_open cb + 1 \<longrightarrow>
            state (fst (handle_reports clk rs (cb, k))) = CLOSED)"
proof -
  have 1: "state (fst (handle_reports clk rs (cb, k))) = HALF_OPEN \<and>
           calls_since_half_open (fst (handle_reports clk rs (cb, k))) = int (length rs)"
    if "int (length rs) \<le> allowed_calls_in_half_open cb"
    using handle_reports_half_open [OF assms(1,4), of clk k] that assms(1,2) by simp
  have 2: "state (fst (handle_reports clk rs (cb, k))) = CLOSED"
    if l: "int (length rs) = allowed_calls_in_half_open cb + 1"
  proof -
    from l assms(3) have "rs \<noteq> []"
      by auto
    then obtain rs' r where rs: "rs = rs' @ [r]"
      by (metis rev_exhaust)
    with l have l': "int (length rs') = allowed_calls_in_half_open cb"
      by simp
    let ?cb1 = "cb\<lparr>calls_since_half_open := int (length rs')\<rparr>"
    have "handle_reports clk rs' (cb, k) = (?cb1, k)"
      using handle_reports_half_open [of cb rs' clk k] assms(1,2,4) rs l' by simp
    moreover have "handle_report clk r (?cb1, k) =
        set_state clk CLOSED (?cb1\<lparr>calls_since_half_open := int (length rs') + 1\<rparr>, k)"
    proof -
      have "state ?cb1 = HALF_OPEN" and "non_failing ?cb1 r"
        using assms(1,4) rs by (simp_all add: non_failing_calls)
      from handle_report_half_open [OF this, of clk k] l' show ?thesis
        by simp
    qed
    ultimately show ?thesis
      by (simp add: rs handle_reports_append set_state_CLOSED)
  qed
  from 1 2 show ?thesis
    by blast
qed

theorem half_open_closes_after_allowed_calls_plus_one_witness:
  "state (example_breaker 4 HALF_OPEN [] 0 0) = HALF_OPEN \<and>
   calls_since_half_open (example_breaker 4 HALF_OPEN [] 0 0) = 0 \<and>
   0 \<le> allowed_calls_in_half_open (example_breaker 4 HALF_OPEN [] 0 0) \<and>
   non_failing (example_breaker 4 HALF_OPEN [] 0 0) Success \<and>
   non_failing (example_breaker 4 HALF_OPEN [] 0 0) (Failure key_error) \<and>
   handle_reports seconds_clock [Success, Failure key_error]
     (example_breaker 4 HALF_OPEN [] 0 0, 1) = (example_breaker 4 HALF_OPEN [] 2 0, 1) \<and>
   handle_reports seconds_clock [Success, Failure key_error, Success]
     (example_breaker 4 HALF_OPEN [] 0 0, 1) = (example_breaker 4 CLOSED [] 0 1000000, 2)"
  using half_open_closes_after_allowed_calls_plus_one
          [of "example_breaker 4 HALF_OPEN [] 0 0" "[Success, Failure key_error]"
              seconds_clock 1]
        half_open_closes_after_allowed_calls_plus_one
          [of "example_breaker 4 HALF_OPEN [] 0 0" "[Success, Failure key_error, Success]"
              seconds_clock 1]
  by (simp add: example_defs handle_call_failure_ignored handle_call_success_half_open
        set_state_CLOSED rb_clear_def)

section \<open>When the division has a result\<close>

lemma pow2_pos: "0 < pow2 i"
  by (simp add: pow2_def)

lemma pow2_le_1: "i \<le> 0 \<Longrightarrow> pow2 i \<le> 1"
  by (auto simp: pow2_def divide_le_eq_1 intro: one_le_power)

lemma ilog2_le_0: "a \<le> 1 \<Longrightarrow> ilog2 a \<le> 0"
proof (cases "a = 1")
  case True
  have "bit_length (Suc 0) = Suc 0"
    by (simp add: bit_length.simps)
  with True show ?thesis
    by (simp add: ilog2_def)
next
  case False
  assume "a \<le> 1"
  with False show ?thesis
    by (simp add: ilog2_def)
qed

lemma round_half_even_bounds:
  assumes "0 \<le> m"
  shows "0 \<le> round_half_even m \<and> of_int (round_half_even m) \<le> m + 1"
proof -
  from assms have f: "0 \<le> \<lfloor>m\<rfloor>"
    by simp
  have fl: "(of_int \<lfloor>m\<rfloor> :: rat) \<le> m"
    by simp
  have "round_half_even m = \<lfloor>m\<rfloor> \<or> round_half_even m = \<lfloor>m\<rfloor> + 1"
    unfolding round_half_even_def Let_def by metis
  then consider (down) "round_half_even m = \<lfloor>m\<rfloor>" | (up) "round_half_even m = \<lfloor>m\<rfloor> + 1"
    by blast
  then show ?thesis
  proof cases
    case down
    have "(of_int \<lfloor>m\<rfloor> :: rat) \<le> m + 1"
      using fl by linarith
    with f show ?thesis
      unfolding down by (rule conjI)
  next
    case up
    have "(of_int (\<lfloor>m\<rfloor> + 1) :: rat) \<le> m + 1"
      using fl by simp
    moreover from f have "0 \<le> \<lfloor>m\<rfloor> + 1"
      by linarith
    ultimately show ?thesis
      unfolding up by (rule conjI [rotated])
  qed
qed

lemma binary64_unit_interval:
  assumes "0 \<le> q" and "q \<le> 1"
  shows "0 \<le> binary64 q \<and> binary64 q \<le> 2"
proof (cases "q = 0")
  case True
  then show ?thesis
    by (simp add: binary64_def)
next
  case False
  with assms have q: "0 < q"
    by simp
  define p where "p = max (ilog2 \<bar>q\<bar>) (- 1022) - 52"
  define r where "r = round_half_even (\<bar>q\<bar> / pow2 p)"
  have b: "binary64 q = of_int r * pow2 p"
    using q False by (simp add: binary64_def Let_def p_def r_def)
  have "ilog2 \<bar>q\<bar> \<le> 0"
    using assms q by (intro ilog2_le_0) simp
  then have "p \<le> 0"
    by (simp add: p_def)
  then have p1: "pow2 p \<le> 1"
    by (rule pow2_le_1)
  have "0 \<le> \<bar>q\<bar> / pow2 p"
    using pow2_pos [of p] by simp
  from round_half_even_bounds [OF this]
  have r0: "0 \<le> r" and r1: "of_int r \<le> \<bar>q\<bar> / pow2 p + 1"
    by (simp_all add: r_def)
  from r1 have "of_int r * pow2 p \<le> (\<bar>q\<bar> / pow2 p + 1) * pow2 p"
    using pow2_pos [of p] by (simp add: mult_right_mono)
  also have "\<dots> = \<bar>q\<bar> + pow2 p"
    using pow2_pos [of p] by (simp add: field_simps)
  also have "\<dots> \<le> 2"
    using assms p1 by simp
  finally have "of_int r * pow2 p \<le> 2" .
  moreover have "0 \<le> of_int r * pow2 p"
    using r0 pow2_pos [of p] by simp
  ultimately show ?thesis
    by (simp add: b)
qed

lemma py_truediv_defined:
  assumes "0 \<le> a" and "a \<le> b" and "0 < b"
  shows "\<exists>q. py_truediv a b = Inr (Finite q)"
proof -
  have "0 \<le> (of_int a :: rat) / of_int b" and "(of_int a :: rat) / of_int b \<le> 1"
    using assms by simp_all
  from binary64_unit_interval [OF this]
  have "\<bar>binary64 (of_int a / of_int b)\<bar> \<le> 2"
    by simp
  moreover have "(2 :: rat) < pow2 1024"
    by (simp add: pow2_def)
  ultimately show ?thesis
    using assms by (simp add: py_truediv_def Let_def)
qed

lemma failures_in_add_le_size: "failures_in (rb_add x b) \<le> int (rb_size b)"
proof -
  have "length (filter (\<lambda>result. result = FAILURE) (rb_items (rb_add x b)))
        \<le> length (rb_items (rb_add x b))"
    by (rule length_filter_le)
  also have "\<dots> \<le> rb_size b"
    by (simp add: rb_add_def)
  finally show ?thesis
    by (simp add: failures_in_length)
qed

lemma handle_call_failure_raises_nothing:
  assumes "consistent cb" and "sliding_window_size cb \<noteq> 0"
  shows "fst (handle_call_failure clk exception (cb, k)) = None"
proof (cases "ignore cb exception")
  case True
  then show ?thesis
    by (simp add: handle_call_failure_ignored)
next
  case False
  obtain s1 cb1 k1 where g1: "get_state clk (cb, k) = (s1, (cb1, k1))"
    by (metis prod.exhaust)
  obtain s2 cb2 k2 where g2: "get_state clk (cb1, k1) = (s2, (cb2, k2))"
    by (metis prod.exhaust)
  have "consistent cb2"
    by (rule get_state_consistent [OF get_state_consistent [OF assms(1) g1] g2])
  then have z: "rb_size (executions cb2) = sliding_window_size cb2"
    by (simp add: consistent_def)
  have n: "sliding_window_size cb2 \<noteq> 0"
    using get_state_config [OF g1] get_state_config [OF g2] assms(2) by simp
  have "\<exists>q. py_truediv (failures_in (rb_add FAILURE (executions cb2)))
              (int (sliding_window_size cb2)) = Inr (Finite q)"
    using failures_in_add_le_size [of FAILURE "executions cb2"] z n
    by (intro py_truediv_defined) (simp_all add: failures_in_nonneg)
  then obtain q where
    "py_truediv (failures_in (rb_add FAILURE (executions cb2)))
       (int (sliding_window_size cb2)) = Inr (Finite q)" ..
  then show ?thesis
    using False g1 g2 by (simp add: handle_call_failure_def Let_def)
qed

text \<open>
  For a reachable breaker whose window size is not 0, handling a failure raises nothing,
  and an allowed call in which the guarded function raises an exception raises that
  exception.
\<close>

lemma wrapped_func_reraises:
  assumes "reachable clk (cb, k)" and "sliding_window_size cb \<noteq> 0"
    and "fst (get_state clk (cb, k)) \<noteq> OPEN" and "func env = (Inl exception, env')"
  shows "fst (wrapped_func clk func env (cb, k)) = Inl (Propagated exception)"
proof -
  obtain s1 cb1 k1 where g1: "get_state clk (cb, k) = (s1, (cb1, k1))"
    by (metis prod.exhaust)
  have "consistent cb"
    using reachable_consistent [OF assms(1)] by simp
  then have c: "consistent cb1"
    by (rule get_state_consistent [OF _ g1])
  have n: "sliding_window_size cb1 \<noteq> 0"
    using get_state_config [OF g1] assms(2) by simp
  from handle_call_failure_raises_nothing [OF c n, of clk exception k1]
  show ?thesis
    using assms(3,4) g1 by (auto simp: wrapped_func_def split: prod.splits option.splits)
qed

section \<open>The rounding is to a nearest float\<close>

lemma bit_length_bounds:
  "0 < n \<Longrightarrow> 2 ^ (bit_length n - 1) \<le> n \<and> n < 2 ^ bit_length n"
proof (induction n rule: bit_length.induct)
  case (1 n)
  show ?case
  proof (cases "n div 2 = 0")
    case True
    with "1.prems" have n: "n = Suc 0"
      by (simp add: div_eq_0_iff)
    have "bit_length (Suc 0) = Suc 0"
      by (simp add: bit_length.simps)
    with n show ?thesis
      by simp
  next
    case False
    with "1.IH" "1.prems" have ih: "2 ^ (bit_length (n div 2) - 1) \<le> n div 2"
      "n div 2 < 2 ^ bit_length (n div 2)"
      by simp_all
    have pos: "0 < bit_length (n div 2)"
      using False by (simp add: bit_length.simps [of "n div 2"])
    have b: "bit_length n = Suc (bit_length (n div 2))"
      using "1.prems" by (simp add: bit_length.simps [of n])
    from pos obtain j where j: "bit_length (n div 2) = Suc j"
      by (cases "bit_length (n div 2)") simp_all
    from ih(1) j have "2 * 2 ^ j \<le> 2 * (n div 2)"
      by simp
    also have "\<dots> \<le> n"
      by simp
    finally have lo: "2 ^ bit_length (n div 2) \<le> n"
      by (simp add: j)
    from ih(2) have "n div 2 + 1 \<le> 2 ^ bit_length (n div 2)"
      by simp
    then have "2 * (n div 2) + 2 \<le> 2 * 2 ^ bit_length (n div 2)"
      by simp
    moreover have "n < 2 * (n div 2) + 2"
      by presburger
    ultimately have hi: "n < 2 * 2 ^ bit_length (n div 2)"
      by linarith
    from lo hi show ?thesis
      by (simp add: b)
  qed
qed

lemma ilog2_bounds:
  assumes "0 < a"
  shows "pow2 (ilog2 a) \<le> a \<and> a < pow2 (ilog2 a + 1)"
proof (cases "1 \<le> a")
  case True
  define n where "n = nat \<lfloor>a\<rfloor>"
  from True have n: "0 < n" and na: "of_nat n \<le> a" and an: "a < of_nat n + 1"
    by (simp_all add: n_def) linarith+
  from bit_length_bounds [OF n] have lo: "2 ^ (bit_length n - 1) \<le> n"
    and hi: "n < 2 ^ bit_length n"
    by simp_all
  have pos: "0 < bit_length n"
    using n by (simp add: bit_length.simps [of n])
  have e: "ilog2 a = int (bit_length n - 1)"
    using True pos by (simp add: ilog2_def n_def)
  have "(2 :: rat) ^ (bit_length n - 1) \<le> of_nat n"
    using lo by (metis of_nat_le_iff of_nat_numeral of_nat_power)
  from order_trans [OF this na] have 1: "pow2 (ilog2 a) \<le> a"
    by (simp add: e pow2_def)
  from hi have "n + 1 \<le> 2 ^ bit_length n"
    by simp
  then have "(of_nat (n + 1) :: rat) \<le> 2 ^ bit_length n"
    by (metis of_nat_le_iff of_nat_numeral of_nat_power)
  moreover have "(of_nat (n + 1) :: rat) = of_nat n + 1"
    by simp
  ultimately have "(of_nat n :: rat) + 1 \<le> 2 ^ bit_length n"
    by (simp only:)
  from less_le_trans [OF an this] have "a < 2 ^ bit_length n" .
  moreover have "ilog2 a + 1 = int (bit_length n)"
    using pos by (simp add: e)
  ultimately have "a < pow2 (ilog2 a + 1)"
    by (simp add: pow2_def)
  with 1 show ?thesis ..
next
  case False
  then have a1: "a < 1"
    by simp
  define c where "c = nat \<lceil>1 / a\<rceil>"
  have inv: "1 < 1 / a"
    using assms a1 by simp
  then have "1 < \<lceil>1 / a\<rceil>"
    by (simp add: less_ceiling_iff)
  then have c2: "2 \<le> c"
    unfolding c_def by linarith
  have cu: "1 / a \<le> of_nat c"
    using inv by (simp add: c_def)
  have cl: "of_nat c - 1 < 1 / a"
    using inv by (simp add: c_def) linarith
  define m where "m = bit_length (c - 1)"
  from c2 have "0 < c - 1"
    by simp
  from bit_length_bounds [OF this] have lo: "2 ^ (m - 1) \<le> c - 1" and hi: "c - 1 < 2 ^ m"
    by (simp_all add: m_def)
  have mpos: "0 < m"
  proof -
    from c2 have "c - 1 \<noteq> 0"
      by simp
    then show ?thesis
      unfolding m_def by (subst bit_length.simps) simp
  qed
  have e: "ilog2 a = - int m"
    using False by (simp add: ilog2_def m_def c_def)
  from hi have "c \<le> 2 ^ m"
    by simp
  then have "(of_nat c :: rat) \<le> 2 ^ m"
    by (metis of_nat_le_iff of_nat_numeral of_nat_power)
  from order_trans [OF cu this] have "1 / a \<le> 2 ^ m" .
  then have "1 \<le> 2 ^ m * a"
    using assms by (simp add: field_simps)
  then have "1 / 2 ^ m \<le> a"
    by (simp add: field_simps)
  then have 1: "pow2 (ilog2 a) \<le> a"
    using mpos by (simp add: e pow2_def)
  from lo have "(2 :: rat) ^ (m - 1) \<le> of_nat (c - 1)"
    by (metis of_nat_le_iff of_nat_numeral of_nat_power)
  moreover have "(of_nat (c - 1) :: rat) = of_nat c - 1"
    using c2 by (simp add: of_nat_diff)
  ultimately have "(2 :: rat) ^ (m - 1) \<le> of_nat c - 1"
    by (simp only:)
  from le_less_trans [OF this cl] have "2 ^ (m - 1) < 1 / a" .
  then have "2 ^ (m - 1) * a < 1"
    using assms by (simp add: field_simps)
  then have "a < 1 / 2 ^ (m - 1)"
    by (simp add: field_simps)
  moreover have "pow2 (ilog2 a + 1) = 1 / 2 ^ (m - 1)"
  proof (cases "m = 1")
    case True
    then show ?thesis
      by (simp add: e pow2_def)
  next
    case False
    with mpos have "nat (int m - 1) = m - 1" and "\<not> 0 \<le> 1 - int m"
      by simp_all
    then show ?thesis
      by (simp add: e pow2_def)
  qed
  ultimately have "a < pow2 (ilog2 a + 1)"
    by simp
  with 1 show ?thesis ..
qed

lemma round_half_even_nearest: "\<bar>of_int (round_half_even m) - m\<bar> \<le> 1 / 2"
proof -
  have "(of_int \<lfloor>m\<rfloor> :: rat) \<le> m" and "m < of_int \<lfloor>m\<rfloor> + 1"
    by simp_all linarith
  then show ?thesis
    by (auto simp: round_half_even_def Let_def abs_le_iff)
qed

text \<open>
  \<open>binary64 q\<close> is a multiple of the spacing \<open>pow2 p\<close> of the floats around \<open>q\<close>, and no
  further from \<open>q\<close> than half of it.
\<close>

lemma binary64_nearest:
  assumes "q \<noteq> 0"
  shows "\<exists>r. binary64 q = of_int r * pow2 (max (ilog2 \<bar>q\<bar>) (- 1022) - 52) \<and>
             \<bar>binary64 q - q\<bar> \<le> pow2 (max (ilog2 \<bar>q\<bar>) (- 1022) - 52) / 2"
proof -
  define p where "p = max (ilog2 \<bar>q\<bar>) (- 1022) - 52"
  define r where "r = round_half_even (\<bar>q\<bar> / pow2 p)"
  have b: "binary64 q = sgn q * of_int r * pow2 p"
    using assms by (simp add: binary64_def Let_def p_def r_def)
  have "\<bar>of_int r - \<bar>q\<bar> / pow2 p\<bar> \<le> 1 / 2"
    unfolding r_def by (rule round_half_even_nearest)
  then have "\<bar>of_int r - \<bar>q\<bar> / pow2 p\<bar> * pow2 p \<le> 1 / 2 * pow2 p"
    using pow2_pos [of p] by (simp only: mult_le_cancel_right_pos)
  moreover have "\<bar>of_int r - \<bar>q\<bar> / pow2 p\<bar> * pow2 p = \<bar>of_int r * pow2 p - \<bar>q\<bar>\<bar>"
  proof -
    have "\<bar>of_int r - \<bar>q\<bar> / pow2 p\<bar> * pow2 p = \<bar>(of_int r - \<bar>q\<bar> / pow2 p) * pow2 p\<bar>"
      using pow2_pos [of p] by (simp add: abs_mult)
    also have "(of_int r - \<bar>q\<bar> / pow2 p) * pow2 p = of_int r * pow2 p - \<bar>q\<bar>"
      using pow2_pos [of p] by (simp add: field_simps)
    finally show ?thesis .
  qed
  ultimately have d: "\<bar>of_int r * pow2 p - \<bar>q\<bar>\<bar> \<le> pow2 p / 2"
    by simp
  have "\<bar>binary64 q - q\<bar> = \<bar>of_int r * pow2 p - \<bar>q\<bar>\<bar>"
  proof (cases "0 < q")
    case True
    then show ?thesis
      by (simp add: b)
  next
    case False
    with assms have "q < 0"
      by simp
    then have "binary64 q - q = - (of_int r * pow2 p - \<bar>q\<bar>)"
      by (simp add: b)
    then show ?thesis
      by (simp only: abs_minus_cancel)
  qed
  with d have "\<bar>binary64 q - q\<bar> \<le> pow2 p / 2"
    by simp
  moreover have "binary64 q = of_int (sgn (if 0 < q then 1 else - 1) * r) * pow2 p"
    using assms by (simp add: b sgn_if)
  ultimately show ?thesis
    unfolding p_def by blast
qed

section \<open>A run from the specification\<close>

text \<open>
  Window size 4, threshold 0.5, reports F, F, S, S, F, F, F to a new breaker: after six
  reports the window holds S, S, F, F, the ratio 2/4 is not above 0.5 and the breaker is
  CLOSED; the seventh report makes the window S, F, F, F, and the breaker goes to OPEN.
\<close>

lemma truediv_1_4: "py_truediv 1 4 = Inr (Finite (1 / 4))"
  by code_simp

lemma scenario_init:
  "CircuitBreaker_init seconds_clock ''example'' 4 (Finite (1 / 2)) 5000000 2 [''KeyError''] 0 =
     (example_breaker 4 CLOSED [] 0 0, 1)"
  by (simp add: CircuitBreaker_init_def set_state_CLOSED rb_clear_def RingBuffer_init_def
        example_defs)

lemma scenario_six_reports:
  "handle_reports seconds_clock
     [Failure value_error, Failure value_error, Success, Success,
      Failure value_error, Failure value_error]
     (example_breaker 4 CLOSED [] 0 0, 1) =
   (example_breaker 4 CLOSED [SUCCESS, SUCCESS, FAILURE, FAILURE] 0 0, 1)"
  by (simp add: example_defs rb_add_def failures_in_def truediv_1_4 truediv_2_4
        handle_call_failure_def handle_call_success_closed get_state_not_open)

lemma scenario_seventh_report:
  "handle_report seconds_clock (Failure value_error)
     (example_breaker 4 CLOSED [SUCCESS, SUCCESS, FAILURE, FAILURE] 0 0, 1) =
   (example_breaker 4 OPEN [SUCCESS, FAILURE, FAILURE, FAILURE] 0 1000000, 2)"
  by (simp add: example_defs rb_add_def failures_in_def truediv_3_4
        handle_call_failure_def get_state_not_open set_state_OPEN)

end
